theory Spec2Isabelle
  imports Main "HOL-Library.Word"
begin

section \<open>The container \<open>fixed_vector<T, CAPACITY>\<close>\<close>

text \<open>
  The class has three data members: \<open>_capacity\<close> (a \<open>const size_t\<close>, set to the template
  parameter \<open>CAPACITY\<close> by every constructor), \<open>_current_size\<close> (a \<open>size_t\<close>) and \<open>_buf\<close>
  (a \<open>std::array<T, CAPACITY>\<close>). \<open>size_t\<close> is modelled as a 64-bit word, so that
  \<open>++\<close>, \<open>--\<close> and \<open>-\<close> wrap around as unsigned arithmetic does in C++. The array is a list
  whose length is \<open>CAPACITY\<close>; a subscript outside the list is undefined behaviour in C++
  and is a result of its own in the model (\<open>OutOfBounds\<close>, with the offending index).
\<close>

type_synonym size_t = "64 word"

record 'a fixed_vector =
  capacity :: size_t
  current_size :: size_t
  buf :: "'a list"

text \<open>The compile-time switch \<open>FIXED_VECTOR_NOEXCEPT\<close>: undefined is \<open>Checked\<close>.\<close>

datatype build_mode = Checked | NoExcept

text \<open>The exceptions the class throws: \<open>std::length_error\<close>, \<open>std::out_of_range\<close>,
  \<open>std::runtime_error\<close>.\<close>

datatype exn = length_error | out_of_range | runtime_error

text \<open>
  What a member function does: it returns a value and leaves the object in a state, or it
  throws and leaves the object in a state, or it subscripts \<open>_buf\<close> out of range.
\<close>

datatype ('r, 'a) outcome =
    Returns 'r "'a fixed_vector"
  | Throws exn "'a fixed_vector"
  | OutOfBounds nat

text \<open>\<open>static_assert(CAPACITY > 0)\<close>, \<open>_capacity(CAPACITY)\<close> and the type of \<open>_buf\<close>.\<close>

definition well_formed :: "'a fixed_vector \<Rightarrow> bool" where
  "well_formed v \<longleftrightarrow> 0 < capacity v \<and> length (buf v) = unat (capacity v)"

text \<open>The invariant \<open>0 <= size <= capacity\<close>.\<close>

definition size_invariant :: "'a fixed_vector \<Rightarrow> bool" where
  "size_invariant v \<longleftrightarrow> current_size v \<le> capacity v"

text \<open>The logical sequence: slots \<open>0\<close> to \<open>size - 1\<close>.\<close>

definition logical :: "'a fixed_vector \<Rightarrow> 'a list" where
  "logical v = take (unat (current_size v)) (buf v)"

subsection \<open>Constructors\<close>

text \<open>The default constructor; \<open>d\<close> is the value-initialised \<open>T\<close> of \<open>_buf({})\<close>.\<close>

definition fixed_vector_default :: "size_t \<Rightarrow> 'a \<Rightarrow> 'a fixed_vector" where
  "fixed_vector_default CAPACITY d =
     \<lparr>capacity = CAPACITY, current_size = 0, buf = replicate (unat CAPACITY) d\<rparr>"

text \<open>The constructor from a \<open>std::array<T, CAPACITY>\<close>.\<close>

definition fixed_vector_array :: "size_t \<Rightarrow> 'a list \<Rightarrow> 'a fixed_vector" where
  "fixed_vector_array CAPACITY a =
     \<lparr>capacity = CAPACITY, current_size = CAPACITY, buf = a\<rparr>"

text \<open>The initializer-list constructor: \<open>std::copy\<close> into the value-initialised array. A
  list longer than the array is written past its end.\<close>

definition fixed_vector_init :: "size_t \<Rightarrow> 'a \<Rightarrow> 'a list \<Rightarrow> nat + 'a fixed_vector" where
  "fixed_vector_init CAPACITY d init_list =
     (if length init_list \<le> unat CAPACITY then
        Inr \<lparr>capacity = CAPACITY, current_size = of_nat (length init_list),
             buf = init_list @ replicate (unat CAPACITY - length init_list) d\<rparr>
      else Inl (unat CAPACITY))"

subsection \<open>The two shifts\<close>

text \<open>
  \<open>for (size_t i = _current_size; i > 0; --i) _buf[i] = _buf[i-1];\<close>
  The right operand of the assignment is read first, then the left one is written.
  \<open>Inl k\<close> is a subscript \<open>k\<close> out of range.
\<close>

function right_shift_loop :: "size_t \<Rightarrow> 'a list \<Rightarrow> nat + 'a list" where
  "right_shift_loop i b =
     (if i > 0 then
        (if \<not> unat (i - 1) < length b then Inl (unat (i - 1))
         else if \<not> unat i < length b then Inl (unat i)
         else right_shift_loop (i - 1) (b[unat i := b ! unat (i - 1)]))
      else Inr b)"
  by pat_completeness auto
termination
  by (relation "measure (\<lambda>(i, b). unat i)") (auto simp: unat_minus_one unat_gt_0 word_gt_0)

definition unsafe_right_shift_by_one :: "'a fixed_vector \<Rightarrow> nat + 'a fixed_vector" where
  "unsafe_right_shift_by_one v =
     (let v1 = v\<lparr>current_size := current_size v + 1\<rparr>
      in case right_shift_loop (current_size v1) (buf v1) of
           Inl k \<Rightarrow> Inl k
         | Inr b \<Rightarrow> Inr (v1\<lparr>buf := b\<rparr>))"

text \<open>\<open>for (size_t i = 1; i < _current_size; ++i) _buf[i-1] = _buf[i];\<close>\<close>

function left_shift_loop :: "size_t \<Rightarrow> size_t \<Rightarrow> 'a list \<Rightarrow> nat + 'a list" where
  "left_shift_loop i n b =
     (if i < n then
        (if \<not> unat i < length b then Inl (unat i)
         else if \<not> unat (i - 1) < length b then Inl (unat (i - 1))
         else left_shift_loop (i + 1) n (b[unat (i - 1) := b ! unat i]))
      else Inr b)"
  by pat_completeness auto
termination
proof (relation "measure (\<lambda>(i, n, b). unat n - unat i)")
  show "wf (measure (\<lambda>(i::size_t, n::size_t, b::'a list). unat n - unat i))"
    by simp
next
  fix i n :: size_t and b :: "'a list"
  assume "i < n"
  then have "unat n - unat (i + 1) < unat n - unat i"
    using unsigned_less [of n, where 'a = nat]
    by (simp add: unat_word_ariths word_less_nat_alt)
  then show "((i + 1, n, b[unat (i - 1) := b ! unat i]), (i, n, b))
               \<in> measure (\<lambda>(i, n, b). unat n - unat i)"
    by simp
qed

definition unsafe_left_shift_by_one :: "'a fixed_vector \<Rightarrow> nat + 'a fixed_vector" where
  "unsafe_left_shift_by_one v =
     (case left_shift_loop 1 (current_size v) (buf v) of
        Inl k \<Rightarrow> Inl k
      | Inr b \<Rightarrow> Inr (v\<lparr>buf := b, current_size := current_size v - 1\<rparr>))"

subsection \<open>Accessors\<close>

definition capacity_fv :: "'a fixed_vector \<Rightarrow> size_t" where
  "capacity_fv v = capacity v"

definition size_fv :: "'a fixed_vector \<Rightarrow> size_t" where
  "size_fv v = current_size v"

definition clear :: "'a fixed_vector \<Rightarrow> (unit, 'a) outcome" where
  "clear v = Returns () (v\<lparr>current_size := 0\<rparr>)"

subsection \<open>Mutators\<close>

definition push_back :: "build_mode \<Rightarrow> 'a fixed_vector \<Rightarrow> 'a \<Rightarrow> (unit, 'a) outcome" where
  "push_back m v val =
     (if current_size v = capacity v then
        (case m of Checked \<Rightarrow> Throws length_error v | NoExcept \<Rightarrow> Returns () v)
      else if \<not> unat (current_size v) < length (buf v) then OutOfBounds (unat (current_size v))
      else Returns () (v\<lparr>buf := (buf v)[unat (current_size v) := val],
                         current_size := current_size v + 1\<rparr>))"

definition push_front :: "build_mode \<Rightarrow> 'a fixed_vector \<Rightarrow> 'a \<Rightarrow> (unit, 'a) outcome" where
  "push_front m v val =
     (if current_size v = capacity v then
        (case m of Checked \<Rightarrow> Throws length_error v | NoExcept \<Rightarrow> Returns () v)
      else case unsafe_right_shift_by_one v of
             Inl k \<Rightarrow> OutOfBounds k
           | Inr v1 \<Rightarrow>
               if \<not> 0 < length (buf v1) then OutOfBounds 0
               else Returns () (v1\<lparr>buf := (buf v1)[0 := val]\<rparr>))"

text \<open>
  \<open>return std::move(_buf[_current_size]);\<close> constructs the returned value with the move
  constructor of \<open>T\<close> and leaves the slot moved-from. The value that the move constructor
  leaves behind is a parameter, \<open>moved_from\<close>: the identity for \<open>int\<close> and every other type
  whose move is a copy. The fallback of the non-throwing build, \<open>return _buf[0];\<close>, is a copy.
\<close>

definition pop_back :: "build_mode \<Rightarrow> ('a \<Rightarrow> 'a) \<Rightarrow> 'a fixed_vector \<Rightarrow> ('a, 'a) outcome" where
  "pop_back m moved_from v =
     (if current_size v = 0 then
        (case m of
           Checked \<Rightarrow> Throws length_error v
         | NoExcept \<Rightarrow> if \<not> 0 < length (buf v) then OutOfBounds 0 else Returns (buf v ! 0) v)
      else
        (let v1 = v\<lparr>current_size := current_size v - 1\<rparr>
         in if \<not> unat (current_size v1) < length (buf v1) then OutOfBounds (unat (current_size v1))
            else Returns (buf v1 ! unat (current_size v1))
                   (v1\<lparr>buf := (buf v1)[unat (current_size v1) :=
                                  moved_from (buf v1 ! unat (current_size v1))]\<rparr>)))"

text \<open>In \<open>pop_front\<close> the test for the empty vector is inside \<open>#ifndef FIXED_VECTOR_NOEXCEPT\<close>
  and has no \<open>#else\<close> branch: with the switch defined there is no test at all.\<close>

definition pop_front :: "build_mode \<Rightarrow> 'a fixed_vector \<Rightarrow> ('a, 'a) outcome" where
  "pop_front m v =
     (if m = Checked \<and> current_size v = 0 then Throws length_error v
      else if \<not> 0 < length (buf v) then OutOfBounds 0
      else
        (let val = buf v ! 0
         in case unsafe_left_shift_by_one v of
              Inl k \<Rightarrow> OutOfBounds k
            | Inr v1 \<Rightarrow> Returns val v1))"

text \<open>
  \<open>for (size_t i = 0; i <= _current_size / 2; ++i) {
       temp = _buf[i]; _buf[i] = _buf[_current_size - 1 - i]; _buf[_current_size - 1 - i] = temp; }\<close>
\<close>

function reverse_loop :: "size_t \<Rightarrow> size_t \<Rightarrow> 'a list \<Rightarrow> nat + 'a list" where
  "reverse_loop i n b =
     (if i \<le> n div 2 then
        (if \<not> unat i < length b then Inl (unat i)
         else if \<not> unat (n - 1 - i) < length b then Inl (unat (n - 1 - i))
         else reverse_loop (i + 1) n
                ((b[unat i := b ! unat (n - 1 - i)])[unat (n - 1 - i) := b ! unat i]))
      else Inr b)"
  by pat_completeness auto
termination
proof (relation "measure (\<lambda>(i, n, b). Suc (unat (n div 2)) - unat i)")
  show "wf (measure (\<lambda>(i::size_t, n::size_t, b::'a list). Suc (unat (n div 2)) - unat i))"
    by simp
next
  fix i n :: size_t and b :: "'a list"
  assume le: "i \<le> n div 2"
  have "unat (n div 2) < 2 ^ 63"
    using unsigned_less [of n, where 'a = nat] by (simp add: unat_div)
  with le have "unat i < 2 ^ 63"
    by (simp add: word_le_nat_alt)
  then have "unat (i + 1) = unat i + 1"
    by (simp add: unat_word_ariths)
  with le show "((i + 1, n, (b[unat i := b ! unat (n - 1 - i)])[unat (n - 1 - i) := b ! unat i]),
                 (i, n, b)) \<in> measure (\<lambda>(i, n, b). Suc (unat (n div 2)) - unat i)"
    by (simp add: word_le_nat_alt)
qed

definition reverse :: "'a fixed_vector \<Rightarrow> (unit, 'a) outcome" where
  "reverse v =
     (case reverse_loop 0 (current_size v) (buf v) of
        Inl k \<Rightarrow> OutOfBounds k
      | Inr b \<Rightarrow> Returns () (v\<lparr>buf := b\<rparr>))"

subsection \<open>Indexed access\<close>

text \<open>A reference \<open>T&\<close> to \<open>_buf[k]\<close> is modelled as the slot index \<open>k\<close>; the mutable and the
  const overload have the same body.\<close>

definition slot_ref :: "'a fixed_vector \<Rightarrow> size_t \<Rightarrow> (size_t, 'a) outcome" where
  "slot_ref v k = (if unat k < length (buf v) then Returns k v else OutOfBounds (unat k))"

definition subscript :: "build_mode \<Rightarrow> 'a fixed_vector \<Rightarrow> size_t \<Rightarrow> (size_t, 'a) outcome" where
  "subscript m v pos =
     (if current_size v = 0 \<or> pos > current_size v - 1 then
        (case m of Checked \<Rightarrow> Throws out_of_range v | NoExcept \<Rightarrow> slot_ref v 0)
      else if current_size v > capacity v then
        (case m of Checked \<Rightarrow> Throws runtime_error v | NoExcept \<Rightarrow> slot_ref v 0)
      else slot_ref v pos)"

subsection \<open>Assignment and comparison\<close>

text \<open>\<open>for (size_t i = 0; i < _buf.size(); ++i) _buf[i] = v._buf[i];\<close>\<close>

function copy_loop :: "size_t \<Rightarrow> size_t \<Rightarrow> 'a list \<Rightarrow> 'a list \<Rightarrow> nat + 'a list" where
  "copy_loop i n b src =
     (if i < n then
        (if \<not> unat i < length src then Inl (unat i)
         else if \<not> unat i < length b then Inl (unat i)
         else copy_loop (i + 1) n (b[unat i := src ! unat i]) src)
      else Inr b)"
  by pat_completeness auto
termination
proof (relation "measure (\<lambda>(i, n, b, src). unat n - unat i)")
  show "wf (measure (\<lambda>(i::size_t, n::size_t, b::'a list, src::'a list). unat n - unat i))"
    by simp
next
  fix i n :: size_t and b src :: "'a list"
  assume "i < n"
  then have "unat n - unat (i + 1) < unat n - unat i"
    using unsigned_less [of n, where 'a = nat]
    by (simp add: unat_word_ariths word_less_nat_alt)
  then show "((i + 1, n, b[unat i := src ! unat i], src), (i, n, b, src))
               \<in> measure (\<lambda>(i, n, b, src). unat n - unat i)"
    by simp
qed

definition copy_assign :: "'a fixed_vector \<Rightarrow> 'a fixed_vector \<Rightarrow> (unit, 'a) outcome" where
  "copy_assign this v =
     (case copy_loop 0 (of_nat (length (buf this))) (buf this) (buf v) of
        Inl k \<Rightarrow> OutOfBounds k
      | Inr b \<Rightarrow> Returns () (this\<lparr>current_size := current_size v, buf := b\<rparr>))"

definition move_assign :: "'a fixed_vector \<Rightarrow> 'a fixed_vector \<Rightarrow> (unit, 'a) outcome" where
  "move_assign this v = Returns () (this\<lparr>current_size := current_size v, buf := buf v\<rparr>)"

text \<open>
  \<open>std::equal(first1, last1, first2)\<close> on the raw pointers of \<open>cbegin()\<close> and \<open>cend()\<close>: the
  range is given by the offset of \<open>first1\<close> and the number of elements up to \<open>last1\<close>;
  \<open>None\<close> is a read outside one of the arrays. The elements are compared with the
  \<open>operator==\<close> of the element type \<open>T\<close>, which is a parameter, \<open>elem_eq\<close>: nothing makes it
  reflexive or symmetric.
\<close>

fun std_equal ::
  "('a \<Rightarrow> 'a \<Rightarrow> bool) \<Rightarrow> 'a list \<Rightarrow> nat \<Rightarrow> nat \<Rightarrow> 'a list \<Rightarrow> nat \<Rightarrow> bool option" where
  "std_equal elem_eq b1 first1 0 b2 first2 = Some True"
| "std_equal elem_eq b1 first1 (Suc n) b2 first2 =
     (if \<not> (first1 < length b1 \<and> first2 < length b2) then None
      else if elem_eq (b1 ! first1) (b2 ! first2)
        then std_equal elem_eq b1 (Suc first1) n b2 (Suc first2)
      else Some False)"

definition operator_eq ::
  "('a \<Rightarrow> 'a \<Rightarrow> bool) \<Rightarrow> 'a fixed_vector \<Rightarrow> 'a fixed_vector \<Rightarrow> bool option" where
  "operator_eq elem_eq this v =
     (if current_size this = size_fv v
      then std_equal elem_eq (buf this) 0 (unat (current_size this)) (buf v) 0
      else Some False)"

subsection \<open>Notions used in the statements\<close>

text \<open>The recursive equations of the loops are unfolded by hand, one iteration at a time.\<close>

declare right_shift_loop.simps [simp del] left_shift_loop.simps [simp del]
  reverse_loop.simps [simp del] copy_loop.simps [simp del]

text \<open>Exchanging the values of two slots, as the body of the loop of \<open>reverse\<close> does.\<close>

definition swap_slots :: "nat \<Rightarrow> nat \<Rightarrow> 'a list \<Rightarrow> 'a list" where
  "swap_slots p q b = (b[p := b ! q])[q := b ! p]"

text \<open>The array with the slots \<open>i\<close> to \<open>n - 1 - i\<close> in opposite order and the others as they
  are; \<open>mirror 0 n\<close> is the reversal of the first \<open>n\<close> slots.\<close>

definition mirror :: "nat \<Rightarrow> nat \<Rightarrow> 'a list \<Rightarrow> 'a list" where
  "mirror i n b = map (\<lambda>j. if i \<le> j \<and> j < n - i then b ! (n - 1 - j) else b ! j) [0..<length b]"

text \<open>The state that an operation leaves behind, by returning or by throwing, is an array
  of \<open>CAPACITY\<close> slots with \<open>size <= capacity\<close>.\<close>

definition keeps_invariant :: "('r, 'a) outcome \<Rightarrow> bool" where
  "keeps_invariant out =
     (case out of
        Returns r s \<Rightarrow> well_formed s \<and> size_invariant s
      | Throws e s \<Rightarrow> well_formed s \<and> size_invariant s
      | OutOfBounds k \<Rightarrow> True)"

text \<open>A caller pushing the elements of a list at the back, one after the other, up to the
  first call that does not return.\<close>

fun push_back_all :: "build_mode \<Rightarrow> 'a fixed_vector \<Rightarrow> 'a list \<Rightarrow> (unit, 'a) outcome" where
  "push_back_all m v [] = Returns () v"
| "push_back_all m v (x # xs) =
     (case push_back m v x of
        Returns u v1 \<Rightarrow> push_back_all m v1 xs
      | Throws e v1 \<Rightarrow> Throws e v1
      | OutOfBounds k \<Rightarrow> OutOfBounds k)"

subsection \<open>Two element types\<close>

text \<open>
  The element type \<open>double\<close>, as far as its \<open>operator==\<close> is concerned, on a not-a-number
  and on integral values: a not-a-number compares unequal to every value, itself included.
\<close>

datatype double_value = NaN | Finite int

fun double_eq :: "double_value \<Rightarrow> double_value \<Rightarrow> bool" where
  "double_eq (Finite x) (Finite y) = (x = y)"
| "double_eq NaN y = False"
| "double_eq (Finite x) NaN = False"

text \<open>
  A class type whose \<open>operator==\<close> is not symmetric: a wildcard on the left-hand side
  matches every value, a literal matches the same literal only.
\<close>

datatype pattern = Wildcard | Literal int

fun pattern_eq :: "pattern \<Rightarrow> pattern \<Rightarrow> bool" where
  "pattern_eq Wildcard y = True"
| "pattern_eq (Literal x) (Literal y) = (x = y)"
| "pattern_eq (Literal x) Wildcard = False"

section \<open>Facts about the comparison\<close>

lemma std_equal_all2:
  "first1 + n \<le> length b1 \<Longrightarrow> first2 + n \<le> length b2 \<Longrightarrow>
   std_equal elem_eq b1 first1 n b2 first2
     = Some (list_all2 elem_eq (take n (drop first1 b1)) (take n (drop first2 b2)))"
proof (induction n arbitrary: first1 first2)
  case 0
  then show ?case by simp
next
  case (Suc n)
  from Suc.prems have lt: "first1 < length b1" "first2 < length b2"
    by simp_all
  then have d: "drop first1 b1 = b1 ! first1 # drop (Suc first1) b1"
    "drop first2 b2 = b2 ! first2 # drop (Suc first2) b2"
    by (simp_all add: Cons_nth_drop_Suc)
  from Suc.prems have "std_equal elem_eq b1 (Suc first1) n b2 (Suc first2)
      = Some (list_all2 elem_eq (take n (drop (Suc first1) b1)) (take n (drop (Suc first2) b2)))"
    by (intro Suc.IH) simp_all
  with lt d show ?case by simp
qed

lemma size_within_buf:
  "well_formed v \<Longrightarrow> size_invariant v \<Longrightarrow> unat (current_size v) \<le> length (buf v)"
  by (simp add: well_formed_def size_invariant_def word_le_nat_alt)

lemma operator_eq_all2:
  assumes "well_formed a" "size_invariant a" "well_formed b" "size_invariant b"
  shows "operator_eq elem_eq a b
    = Some (current_size a = current_size b \<and> list_all2 elem_eq (logical a) (logical b))"
proof (cases "current_size a = current_size b")
  case True
  from assms have "unat (current_size a) \<le> length (buf a)"
    "unat (current_size b) \<le> length (buf b)"
    by (simp_all add: size_within_buf)
  with True show ?thesis
    by (simp add: operator_eq_def size_fv_def logical_def std_equal_all2)
next
  case False
  then show ?thesis by (simp add: operator_eq_def size_fv_def)
qed

lemma logical_all2_iff:
  assumes "well_formed a" "size_invariant a" "well_formed b" "size_invariant b"
    and "current_size a = current_size b"
  shows "list_all2 elem_eq (logical a) (logical b)
    \<longleftrightarrow> (\<forall>i < unat (current_size a). elem_eq (buf a ! i) (buf b ! i))"
proof -
  from assms(1-4) have "unat (current_size a) \<le> length (buf a)"
    "unat (current_size b) \<le> length (buf b)"
    by (simp_all add: size_within_buf)
  with assms(5) show ?thesis
    by (simp add: logical_def list_all2_conv_all_nth)
qed

lemma list_all2_same_reflexive:
  "(\<forall>x \<in> set xs. elem_eq x x) \<Longrightarrow> list_all2 elem_eq xs xs"
  by (simp add: list_all2_same)

lemma list_all2_symmetric:
  "(\<forall>x y. elem_eq x y \<longrightarrow> elem_eq y x) \<Longrightarrow> list_all2 elem_eq ys xs = list_all2 elem_eq xs ys"
  by (auto simp: list_all2_conv_all_nth)

lemma logical_update_unused:
  "unat (current_size a) \<le> k \<Longrightarrow> logical (a\<lparr>buf := (buf a)[k := x]\<rparr>) = logical a"
  by (simp add: logical_def)

lemma update_slot_keeps_shape:
  "well_formed a \<Longrightarrow> well_formed (a\<lparr>buf := (buf a)[k := x]\<rparr>)"
  "size_invariant a \<Longrightarrow> size_invariant (a\<lparr>buf := (buf a)[k := x]\<rparr>)"
  by (simp_all add: well_formed_def size_invariant_def)

section \<open>Facts about indices\<close>

lemma above_last_iff:
  fixes n pos :: size_t
  assumes "n \<noteq> 0"
  shows "n - 1 < pos \<longleftrightarrow> n \<le> pos"
proof -
  from assms have "unat (n - 1) = unat n - 1" "0 < unat n"
    by (simp_all add: unat_minus_one unat_gt_0)
  then show ?thesis
    by (auto simp: word_less_nat_alt word_le_nat_alt)
qed

section \<open>Facts about the shifts\<close>

lemma unat_succ:
  fixes i n :: size_t
  assumes "i < n"
  shows "unat (i + 1) = Suc (unat i)"
  using assms unsigned_less [of n, where 'a = nat]
  by (simp add: unat_word_ariths word_less_nat_alt)

lemma right_shift_loop_in_range:
  "unat i < length b \<Longrightarrow>
   right_shift_loop i b = Inr (take 1 b @ take (unat i) b @ drop (Suc (unat i)) b)"
proof (induction i b rule: right_shift_loop.induct)
  case (1 i b)
  show ?case
  proof (cases "i = 0")
    case True
    then show ?thesis
      by (simp add: right_shift_loop.simps [of 0 b])
  next
    case False
    then have pos: "0 < i"
      by (simp add: word_gt_0)
    from False obtain m where m: "unat i = Suc m" "unat (i - 1) = m"
      by (metis unat_minus_one unat_gt_0 Suc_pred')
    let ?b = "b[Suc m := b ! m]"
    from "1.prems" m have lt: "m < length b" "Suc m < length b"
      by simp_all
    with pos m have "right_shift_loop i b = right_shift_loop (i - 1) ?b"
      by (simp add: right_shift_loop.simps [of i b])
    also from pos m lt "1.IH" have "\<dots> = Inr (take 1 ?b @ take m ?b @ drop (Suc m) ?b)"
      by simp
    also have "take 1 ?b @ take m ?b @ drop (Suc m) ?b
        = take 1 b @ take (Suc m) b @ drop (Suc (Suc m)) b"
    proof -
      have "take 1 ?b = take 1 b" "take m ?b = take m b"
        by simp_all
      moreover from lt have "drop (Suc m) ?b = ?b ! Suc m # drop (Suc (Suc m)) ?b"
        by (metis Cons_nth_drop_Suc length_list_update)
      moreover from lt have "?b ! Suc m = b ! m" "drop (Suc (Suc m)) ?b = drop (Suc (Suc m)) b"
        by simp_all
      moreover from lt have "take (Suc m) b = take m b @ [b ! m]"
        by (simp add: take_Suc_conv_app_nth)
      ultimately show ?thesis
        by simp
    qed
    finally show ?thesis
      using m by simp
  qed
qed

lemma right_shift_loop_past_end:
  assumes "unat i = length b" "0 < length b"
  shows "right_shift_loop i b = Inl (length b)"
proof -
  from assms have "i \<noteq> 0"
    by auto
  then have "0 < i" "unat (i - 1) = unat i - 1"
    by (simp_all add: word_gt_0 unat_minus_one)
  with assms show ?thesis
    by (simp add: right_shift_loop.simps [of i b])
qed

lemma left_shift_loop_in_range:
  "1 \<le> unat i \<Longrightarrow> unat i \<le> unat n \<Longrightarrow> unat n \<le> length b \<Longrightarrow>
   left_shift_loop i n b
     = Inr (take (unat i - 1) b @ take (unat n - unat i) (drop (unat i) b) @ drop (unat n - 1) b)"
proof (induction i n b rule: left_shift_loop.induct)
  case (1 i n b)
  show ?case
  proof (cases "i < n")
    case False
    with "1.prems" have "unat i = unat n"
      by (simp add: word_less_nat_alt)
    with False show ?thesis
      by (simp add: left_shift_loop.simps [of i n b])
  next
    case True
    from "1.prems" obtain k where k: "unat i = Suc k" "unat (i - 1) = k"
      by (metis unat_minus_one unat_gt_0 Suc_pred' Suc_le_eq One_nat_def)
    from True have suc: "unat (i + 1) = Suc (Suc k)"
      using k by (simp add: unat_succ)
    from True k "1.prems" have lt: "Suc k < unat n" "Suc k < length b" "k < length b"
      by (simp_all add: word_less_nat_alt)
    let ?b = "b[k := b ! Suc k]"
    from True k lt have "left_shift_loop i n b = left_shift_loop (i + 1) n ?b"
      by (simp add: left_shift_loop.simps [of i n b])
    also from True k lt suc "1.prems" "1.IH"
    have "\<dots> = Inr (take (Suc k) ?b @ take (unat n - Suc (Suc k)) (drop (Suc (Suc k)) ?b)
                     @ drop (unat n - 1) ?b)"
      by simp
    also have "take (Suc k) ?b @ take (unat n - Suc (Suc k)) (drop (Suc (Suc k)) ?b)
                 @ drop (unat n - 1) ?b
             = take k b @ take (unat n - Suc k) (drop (Suc k) b) @ drop (unat n - 1) b"
    proof -
      from lt have "take (Suc k) ?b = take k b @ [b ! Suc k]"
        by (simp add: take_Suc_conv_app_nth)
      moreover from lt have "drop (Suc (Suc k)) ?b = drop (Suc (Suc k)) b"
        "drop (unat n - 1) ?b = drop (unat n - 1) b"
        by simp_all
      moreover from lt have "drop (Suc k) b = b ! Suc k # drop (Suc (Suc k)) b"
        by (simp add: Cons_nth_drop_Suc)
      moreover from lt have "unat n - Suc k = Suc (unat n - Suc (Suc k))"
        by simp
      ultimately show ?thesis
        by simp
    qed
    finally show ?thesis
      using k by simp
  qed
qed

lemma push_front_in_range:
  assumes "well_formed v" and "Suc (unat (current_size v)) < unat (capacity v)"
  shows "push_front m v x
    = Returns () (v\<lparr>current_size := current_size v + 1,
                      buf := x # take (Suc (unat (current_size v))) (buf v)
                               @ drop (Suc (Suc (unat (current_size v)))) (buf v)\<rparr>)"
proof -
  let ?s = "unat (current_size v)"
  from assms have len: "length (buf v) = unat (capacity v)" and ne: "current_size v \<noteq> capacity v"
    by (auto simp: well_formed_def)
  from assms(2) have "current_size v < capacity v"
    by (simp add: word_less_nat_alt)
  then have suc: "unat (current_size v + 1) = Suc ?s"
    by (rule unat_succ)
  with assms(2) len have "right_shift_loop (current_size v + 1) (buf v)
      = Inr (take 1 (buf v) @ take (Suc ?s) (buf v) @ drop (Suc (Suc ?s)) (buf v))"
    by (simp add: right_shift_loop_in_range)
  moreover from assms(2) len have "take 1 (buf v) = [buf v ! 0]"
    by (cases "buf v") simp_all
  ultimately show ?thesis
    using ne by (simp add: push_front_def unsafe_right_shift_by_one_def)
qed

lemma push_front_last_slot:
  assumes "well_formed v" and "Suc (unat (current_size v)) = unat (capacity v)"
  shows "push_front m v x = OutOfBounds (unat (capacity v))"
proof -
  from assms have len: "length (buf v) = unat (capacity v)" and ne: "current_size v \<noteq> capacity v"
    by (auto simp: well_formed_def)
  from assms(2) have "current_size v < capacity v"
    by (simp add: word_less_nat_alt)
  then have "unat (current_size v + 1) = Suc (unat (current_size v))"
    by (rule unat_succ)
  with assms(2) len have "right_shift_loop (current_size v + 1) (buf v) = Inl (length (buf v))"
    by (intro right_shift_loop_past_end) simp_all
  with ne len show ?thesis
    by (simp add: push_front_def unsafe_right_shift_by_one_def)
qed

lemma push_at_capacity:
  assumes "current_size v = capacity v"
  shows "push_back Checked v x = Throws length_error v"
    and "push_front Checked v x = Throws length_error v"
    and "push_back NoExcept v x = Returns () v"
    and "push_front NoExcept v x = Returns () v"
  using assms by (simp_all add: push_back_def push_front_def)

lemma push_back_in_range:
  assumes "well_formed v" and "unat (current_size v) < unat (capacity v)"
  shows "push_back m v x
    = Returns () (v\<lparr>buf := (buf v)[unat (current_size v) := x],
                      current_size := current_size v + 1\<rparr>)"
  using assms by (auto simp: push_back_def well_formed_def)

lemma pop_back_in_range:
  assumes "well_formed v" "size_invariant v" and "current_size v \<noteq> 0"
  shows "pop_back m moved_from v
    = Returns (buf v ! (unat (current_size v) - 1))
        (v\<lparr>current_size := current_size v - 1,
            buf := (buf v)[unat (current_size v) - 1 :=
                     moved_from (buf v ! (unat (current_size v) - 1))]\<rparr>)"
proof -
  from assms have "unat (current_size v - 1) = unat (current_size v) - 1"
    "0 < unat (current_size v)" "unat (current_size v) \<le> length (buf v)"
    by (simp_all add: unat_minus_one unat_gt_0 size_within_buf)
  with assms(3) show ?thesis
    by (simp add: pop_back_def Let_def)
qed

lemma pop_back_logical:
  assumes "well_formed v" "size_invariant v" and "current_size v \<noteq> 0"
    and "pop_back m moved_from v = Returns r v1"
  shows "r = last (logical v)" and "logical v1 = butlast (logical v)"
    and "current_size v1 = current_size v - 1"
proof -
  let ?s = "unat (current_size v)"
  from assms(1-3) have s: "0 < ?s" "?s \<le> length (buf v)" "unat (current_size v - 1) = ?s - 1"
    by (simp_all add: unat_gt_0 size_within_buf unat_minus_one)
  from assms have r: "r = buf v ! (?s - 1)"
    and v1: "v1 = v\<lparr>current_size := current_size v - 1,
                     buf := (buf v)[?s - 1 := moved_from (buf v ! (?s - 1))]\<rparr>"
    by (auto simp: pop_back_in_range)
  from s have "logical v \<noteq> []" "length (logical v) = ?s"
    by (auto simp: logical_def)
  with r s show "r = last (logical v)"
    by (simp add: last_conv_nth logical_def)
  from v1 s show "logical v1 = butlast (logical v)"
    by (simp add: logical_def butlast_take)
  from v1 show "current_size v1 = current_size v - 1"
    by simp
qed

lemma pop_front_in_range:
  assumes "well_formed v" "size_invariant v" and "current_size v \<noteq> 0"
  shows "pop_front m v
    = Returns (buf v ! 0)
        (v\<lparr>buf := take (unat (current_size v) - 1) (drop 1 (buf v))
                     @ drop (unat (current_size v) - 1) (buf v),
            current_size := current_size v - 1\<rparr>)"
proof -
  from assms have s: "0 < unat (current_size v)" "unat (current_size v) \<le> length (buf v)"
    by (simp_all add: unat_gt_0 size_within_buf)
  then have "left_shift_loop 1 (current_size v) (buf v)
      = Inr (take (unat (1::size_t) - 1) (buf v)
             @ take (unat (current_size v) - unat (1::size_t)) (drop (unat (1::size_t)) (buf v))
             @ drop (unat (current_size v) - 1) (buf v))"
    by (intro left_shift_loop_in_range) simp_all
  moreover from s have "0 < length (buf v)"
    by linarith
  ultimately show ?thesis
    using assms(3) by (simp add: pop_front_def unsafe_left_shift_by_one_def)
qed

lemma push_front_logical:
  assumes "well_formed v" and "Suc (unat (current_size v)) < unat (capacity v)"
    and "push_front m v x = Returns () v1"
  shows "logical v1 = x # logical v" and "current_size v1 = current_size v + 1"
    and "well_formed v1" and "size_invariant v1"
proof -
  from assms(2) have lt: "current_size v < capacity v"
    by (simp add: word_less_nat_alt)
  then have suc: "unat (current_size v + 1) = Suc (unat (current_size v))"
    by (rule unat_succ)
  from assms(1) have len: "length (buf v) = unat (capacity v)"
    by (simp add: well_formed_def)
  from assms have v1: "v1 = v\<lparr>current_size := current_size v + 1,
      buf := x # take (Suc (unat (current_size v))) (buf v)
               @ drop (Suc (Suc (unat (current_size v)))) (buf v)\<rparr>"
    by (simp add: push_front_in_range)
  moreover from assms(2) len have "unat (current_size v) < length (buf v)"
    by simp
  ultimately show "logical v1 = x # logical v"
    using suc by (simp add: logical_def)
  from v1 show "current_size v1 = current_size v + 1"
    by simp
  from v1 assms(1,2) len show "well_formed v1"
    by (simp add: well_formed_def)
  from v1 suc assms(2) show "size_invariant v1"
    by (simp add: size_invariant_def word_le_nat_alt)
qed

lemma pop_front_logical:
  assumes "well_formed v" "size_invariant v" and "current_size v \<noteq> 0"
    and "pop_front m v = Returns r v1"
  shows "r = hd (logical v)" and "logical v1 = tl (logical v)"
    and "current_size v1 = current_size v - 1"
proof -
  from assms(1-3) have s: "0 < unat (current_size v)" "unat (current_size v) \<le> length (buf v)"
    "unat (current_size v - 1) = unat (current_size v) - 1"
    by (simp_all add: unat_gt_0 size_within_buf unat_minus_one)
  from assms have r: "r = buf v ! 0"
    and v1: "v1 = v\<lparr>buf := take (unat (current_size v) - 1) (drop 1 (buf v))
                     @ drop (unat (current_size v) - 1) (buf v),
            current_size := current_size v - 1\<rparr>"
    by (simp_all add: pop_front_in_range)
  from r s show "r = hd (logical v)"
    by (cases "buf v") (simp_all add: logical_def)
  from v1 s show "logical v1 = tl (logical v)"
    by (simp add: logical_def tl_take drop_Suc)
  from v1 show "current_size v1 = current_size v - 1"
    by simp
qed

lemma push_front_pop_front_round_trip:
  assumes "well_formed v" and "Suc (unat (current_size v)) < unat (capacity v)"
  shows "\<exists>v1 v2. push_front m v x = Returns () v1 \<and> pop_front m v1 = Returns x v2
           \<and> current_size v2 = current_size v \<and> logical v2 = logical v"
proof -
  from assms obtain v1 where v1: "push_front m v x = Returns () v1"
    by (simp add: push_front_in_range)
  note p = push_front_logical [OF assms v1]
  from assms(2) have "current_size v < capacity v"
    by (simp add: word_less_nat_alt)
  then have "unat (current_size v + 1) = Suc (unat (current_size v))"
    by (rule unat_succ)
  with p(2) have ne: "current_size v1 \<noteq> 0"
    by (metis unat_0 Zero_not_Suc)
  with p obtain v2 where v2: "pop_front m v1 = Returns (buf v1 ! 0) v2"
    by (simp add: pop_front_in_range)
  note q = pop_front_logical [OF p(3,4) ne v2]
  from p q have "buf v1 ! 0 = x" "logical v2 = logical v" "current_size v2 = current_size v"
    by simp_all
  with v1 v2 show ?thesis
    by simp
qed

lemma push_back_all_in_range:
  "well_formed v \<Longrightarrow> unat (current_size v) + length xs \<le> unat (capacity v) \<Longrightarrow>
   push_back_all m v xs
     = Returns () (v\<lparr>buf := take (unat (current_size v)) (buf v) @ xs
                              @ drop (unat (current_size v) + length xs) (buf v),
                       current_size := current_size v + of_nat (length xs)\<rparr>)"
proof (induction xs arbitrary: v)
  case Nil
  then show ?case by simp
next
  case (Cons x xs)
  let ?s = "unat (current_size v)"
  let ?v1 = "v\<lparr>buf := (buf v)[?s := x], current_size := current_size v + 1\<rparr>"
  from Cons.prems have lt: "?s < unat (capacity v)" and len: "length (buf v) = unat (capacity v)"
    by (simp_all add: well_formed_def)
  then have "current_size v < capacity v"
    by (simp add: word_less_nat_alt)
  then have suc: "unat (current_size v + 1) = Suc ?s"
    by (rule unat_succ)
  from Cons.prems lt have step: "push_back m v x = Returns () ?v1"
    by (simp add: push_back_in_range)
  from Cons.prems have wf1: "well_formed ?v1"
    by (simp add: well_formed_def)
  from Cons.prems suc have "unat (current_size ?v1) + length xs \<le> unat (capacity ?v1)"
    by simp
  with wf1 have "push_back_all m ?v1 xs
     = Returns () (?v1\<lparr>buf := take (unat (current_size ?v1)) (buf ?v1) @ xs
                              @ drop (unat (current_size ?v1) + length xs) (buf ?v1),
                       current_size := current_size ?v1 + of_nat (length xs)\<rparr>)"
    by (rule Cons.IH)
  moreover from lt len have "take (Suc ?s) ((buf v)[?s := x]) = take ?s (buf v) @ [x]"
    by (simp add: take_Suc_conv_app_nth)
  ultimately show ?case
    using step suc by (simp add: add.assoc add.commute)
qed

lemma fill_by_push_back:
  assumes "well_formed v" "current_size v = 0" "length xs = unat (capacity v)"
  shows "push_back_all Checked v xs
           = Returns () \<lparr>capacity = capacity v, current_size = capacity v, buf = xs\<rparr>"
    and "push_back Checked \<lparr>capacity = capacity v, current_size = capacity v, buf = xs\<rparr> x
           = Throws length_error \<lparr>capacity = capacity v, current_size = capacity v, buf = xs\<rparr>"
    and "push_front Checked \<lparr>capacity = capacity v, current_size = capacity v, buf = xs\<rparr> x
           = Throws length_error \<lparr>capacity = capacity v, current_size = capacity v, buf = xs\<rparr>"
proof -
  from assms have "push_back_all Checked v xs
     = Returns () (v\<lparr>buf := take (unat (current_size v)) (buf v) @ xs
                              @ drop (unat (current_size v) + length xs) (buf v),
                       current_size := current_size v + of_nat (length xs)\<rparr>)"
    by (intro push_back_all_in_range) simp_all
  with assms show "push_back_all Checked v xs
           = Returns () \<lparr>capacity = capacity v, current_size = capacity v, buf = xs\<rparr>"
    by (simp add: well_formed_def)
  show "push_back Checked \<lparr>capacity = capacity v, current_size = capacity v, buf = xs\<rparr> x
           = Throws length_error \<lparr>capacity = capacity v, current_size = capacity v, buf = xs\<rparr>"
    by (simp add: push_back_def)
  show "push_front Checked \<lparr>capacity = capacity v, current_size = capacity v, buf = xs\<rparr> x
           = Throws length_error \<lparr>capacity = capacity v, current_size = capacity v, buf = xs\<rparr>"
    by (simp add: push_front_def)
qed

section \<open>Facts about the reversal\<close>

lemma length_mirror: "length (mirror i n b) = length b"
  by (simp add: mirror_def)

lemma nth_mirror:
  "j < length b \<Longrightarrow> mirror i n b ! j = (if i \<le> j \<and> j < n - i then b ! (n - 1 - j) else b ! j)"
  by (simp add: mirror_def)

lemma mirror_middle: "n div 2 \<le> i \<Longrightarrow> mirror i n b = b"
  by (rule nth_equalityI) (auto simp: length_mirror nth_mirror intro: arg_cong [where f = "(!) b"])

lemma mirror_step:
  assumes "n \<le> length b" "Suc i \<le> n div 2"
  shows "mirror (Suc i) n (swap_slots i (n - 1 - i) b) = mirror i n b"
proof (rule nth_equalityI)
  show "length (mirror (Suc i) n (swap_slots i (n - 1 - i) b)) = length (mirror i n b)"
    by (simp add: length_mirror swap_slots_def)
next
  fix j
  assume "j < length (mirror (Suc i) n (swap_slots i (n - 1 - i) b))"
  then have j: "j < length b"
    by (simp add: length_mirror swap_slots_def)
  from assms have i: "i < n - 1 - i" "n - 1 - i < length b"
    by linarith+
  consider "j = i" | "j = n - 1 - i" | "Suc i \<le> j" "j < n - Suc i" | "j < i" | "n - i \<le> j"
    by linarith
  then show "mirror (Suc i) n (swap_slots i (n - 1 - i) b) ! j = mirror i n b ! j"
  proof cases
    case 1
    with i have "i < n - i" "i \<noteq> n - 1 - i" "i < length b"
      by linarith+
    with 1 i show ?thesis
      by (simp add: nth_mirror swap_slots_def)
  next
    case 2
    with i have "i \<le> j" "j < n - i" "\<not> j < n - Suc i" "n - 1 - j = i"
      by linarith+
    with 2 i j show ?thesis
      by (simp add: nth_mirror swap_slots_def)
  next
    case 3
    with i j have "n - 1 - j \<noteq> i" "n - 1 - j \<noteq> n - 1 - i" "i \<le> j" "j < n - i"
      by linarith+
    with 3 i j show ?thesis
      by (simp add: nth_mirror swap_slots_def)
  next
    case 4
    with i have "j \<noteq> i" "j \<noteq> n - 1 - i" "\<not> Suc i \<le> j" "\<not> i \<le> j"
      by linarith+
    with i j show ?thesis
      by (simp add: nth_mirror swap_slots_def)
  next
    case 5
    with i j have "j \<noteq> i" "j \<noteq> n - 1 - i" "\<not> j < n - Suc i" "\<not> j < n - i"
      by linarith+
    with i j show ?thesis
      by (simp add: nth_mirror swap_slots_def)
  qed
qed

lemma mirror_whole: "n \<le> length b \<Longrightarrow> mirror 0 n b = rev (take n b) @ drop n b"
proof (rule nth_equalityI)
  assume "n \<le> length b"
  then show "length (mirror 0 n b) = length (rev (take n b) @ drop n b)"
    by (simp add: length_mirror)
next
  fix j
  assume n: "n \<le> length b" and "j < length (mirror 0 n b)"
  then have j: "j < length b"
    by (simp add: length_mirror)
  show "mirror 0 n b ! j = (rev (take n b) @ drop n b) ! j"
  proof (cases "j < n")
    case True
    with n j show ?thesis
      by (simp add: nth_mirror nth_append rev_nth)
  next
    case False
    with n j show ?thesis
      by (simp add: nth_mirror nth_append)
  qed
qed

lemma unat_half:
  fixes n :: size_t
  shows "unat (n div 2) = unat n div 2"
  by (simp add: unat_div)

lemma unat_mirror_index:
  fixes i n :: size_t
  assumes "1 \<le> unat n" "unat i \<le> unat n div 2"
  shows "unat (n - 1 - i) = unat n - 1 - unat i"
proof -
  from assms(1) have "1 \<le> n"
    by (simp add: word_le_nat_alt)
  then have one: "unat (n - 1) = unat n - 1"
    by (simp add: unat_sub)
  with assms have "i \<le> n - 1"
    by (simp add: word_le_nat_alt)
  then have "unat (n - 1 - i) = unat (n - 1) - unat i"
    by (rule unat_sub)
  with one show ?thesis
    by simp
qed

lemma reverse_loop_in_range:
  "1 \<le> unat n \<Longrightarrow> unat n \<le> length b \<Longrightarrow> unat i \<le> unat n div 2 \<Longrightarrow>
   reverse_loop i n b
     = Inr (swap_slots (unat n div 2) (unat n - 1 - unat n div 2) (mirror (unat i) (unat n) b))"
proof (induction i n b rule: reverse_loop.induct)
  case (1 i n b)
  let ?h = "unat n div 2"
  let ?j = "unat n - 1 - unat i"
  from "1.prems" have le: "i \<le> n div 2"
    by (simp add: word_le_nat_alt unat_half)
  from "1.prems" have j: "unat (n - 1 - i) = ?j"
    by (simp add: unat_mirror_index)
  from "1.prems" have bounds: "unat i < length b" "?j < length b"
    by linarith+
  have half: "unat (n div 2) < 2 ^ 63"
    using unsigned_less [of n, where 'a = nat] by (simp add: unat_half)
  with le have suc: "unat (i + 1) = Suc (unat i)"
    by (simp add: unat_word_ariths word_le_nat_alt)
  from le j bounds have unfold: "reverse_loop i n b
      = reverse_loop (i + 1) n (swap_slots (unat i) ?j b)"
    by (simp add: reverse_loop.simps [of i n b] swap_slots_def)
  show ?case
  proof (cases "unat i = ?h")
    case True
    with suc have "\<not> i + 1 \<le> n div 2"
      by (simp add: word_le_nat_alt unat_half)
    then have "reverse_loop (i + 1) n (swap_slots (unat i) ?j b) = Inr (swap_slots (unat i) ?j b)"
      by (simp add: reverse_loop.simps [of "i + 1" n])
    with unfold True show ?thesis
      by (simp add: mirror_middle)
  next
    case False
    with "1.prems" have lt: "Suc (unat i) \<le> ?h"
      by simp
    with le j bounds suc "1.prems" "1.IH"
    have "reverse_loop (i + 1) n (swap_slots (unat i) ?j b)
        = Inr (swap_slots ?h (unat n - 1 - ?h) (mirror (Suc (unat i)) (unat n) (swap_slots (unat i) ?j b)))"
      by (simp add: swap_slots_def)
    moreover from lt "1.prems"
    have "mirror (Suc (unat i)) (unat n) (swap_slots (unat i) ?j b) = mirror (unat i) (unat n) b"
      by (intro mirror_step) simp_all
    ultimately show ?thesis
      using unfold by (simp only:)
  qed
qed

lemma reverse_in_range:
  assumes "well_formed v" "size_invariant v" "current_size v \<noteq> 0"
  shows "reverse v
    = Returns () (v\<lparr>buf := swap_slots (unat (current_size v) div 2)
                              (unat (current_size v) - 1 - unat (current_size v) div 2)
                              (rev (take (unat (current_size v)) (buf v))
                               @ drop (unat (current_size v)) (buf v))\<rparr>)"
proof -
  from assms have n: "1 \<le> unat (current_size v)" "unat (current_size v) \<le> length (buf v)"
    by (simp_all add: size_within_buf unat_gt_0 Suc_le_eq)
  then have "reverse_loop 0 (current_size v) (buf v)
      = Inr (swap_slots (unat (current_size v) div 2)
               (unat (current_size v) - 1 - unat (current_size v) div 2)
               (mirror (unat (0::size_t)) (unat (current_size v)) (buf v)))"
    by (intro reverse_loop_in_range) simp_all
  with n show ?thesis
    by (simp add: reverse_def mirror_whole)
qed

lemma reverse_nth:
  assumes "well_formed v" "size_invariant v" "current_size v \<noteq> 0"
    and "reverse v = Returns () v1"
  shows "current_size v1 = current_size v" and "capacity v1 = capacity v"
    and "length (buf v1) = length (buf v)"
    and "i < unat (current_size v) \<Longrightarrow>
         buf v1 ! i =
           (if even (unat (current_size v))
               \<and> (i = unat (current_size v) div 2 \<or> Suc i = unat (current_size v) div 2)
            then buf v ! i else buf v ! (unat (current_size v) - 1 - i))"
    and "unat (current_size v) \<le> i \<Longrightarrow> i < length (buf v) \<Longrightarrow> buf v1 ! i = buf v ! i"
proof -
  let ?n = "unat (current_size v)"
  let ?h = "?n div 2"
  let ?r = "rev (take ?n (buf v)) @ drop ?n (buf v)"
  from assms(1-3) have n: "1 \<le> ?n" "?n \<le> length (buf v)"
    by (simp_all add: size_within_buf unat_gt_0 Suc_le_eq)
  from assms have v1: "v1 = v\<lparr>buf := swap_slots ?h (?n - 1 - ?h) ?r\<rparr>"
    by (simp add: reverse_in_range)
  then show "current_size v1 = current_size v" "capacity v1 = capacity v"
    by simp_all
  from v1 n show "length (buf v1) = length (buf v)"
    by (simp add: swap_slots_def)
  have r_low: "?r ! k = buf v ! (?n - 1 - k)" if "k < ?n" for k
    using that n by (simp add: nth_append rev_nth)
  have r_high: "?r ! k = buf v ! k" if "?n \<le> k" "k < length (buf v)" for k
    using that n by (simp add: nth_append)
  have len: "length ?r = length (buf v)"
    using n by simp
  from n have h: "?h < ?n" "?n - 1 - ?h < ?n"
    by linarith+
  show "buf v1 ! i = buf v ! i" if "?n \<le> i" "i < length (buf v)"
  proof -
    from that h have "i \<noteq> ?h" "i \<noteq> ?n - 1 - ?h"
      by linarith+
    with that v1 len show ?thesis
      by (simp add: swap_slots_def r_high)
  qed
  show "buf v1 ! i =
           (if even ?n \<and> (i = ?h \<or> Suc i = ?h) then buf v ! i else buf v ! (?n - 1 - i))"
    if i: "i < ?n"
  proof (cases "even ?n")
    case False
    then obtain k where "?n = 2 * k + 1"
      by (rule oddE)
    then have "?n - 1 - ?h = ?h"
      by simp
    with v1 have "buf v1 = ?r"
      by (simp add: swap_slots_def)
    with False i show ?thesis
      by (simp add: r_low)
  next
    case True
    then obtain k where "?n = 2 * k"
      by (rule evenE)
    with n have eq: "?n - 1 - ?h = ?h - 1" "?n - 1 - (?h - 1) = ?h" "1 \<le> ?h"
      by simp_all
    from v1 eq have b1: "buf v1 = (?r[?h := ?r ! (?h - 1)])[?h - 1 := ?r ! ?h]"
      by (simp add: swap_slots_def)
    from h eq have rh: "?r ! ?h = buf v ! (?h - 1)" "?r ! (?h - 1) = buf v ! ?h"
      by (simp_all add: r_low)
    from i n len have il: "i < length ?r"
      by simp
    consider "i = ?h" | "Suc i = ?h" | "i \<noteq> ?h" "Suc i \<noteq> ?h"
      by blast
    then show ?thesis
    proof cases
      case 1
      with eq have "?h - 1 \<noteq> i"
        by linarith
      with 1 True b1 rh il show ?thesis
        by (simp add: nth_list_update)
    next
      case 2
      then have "?h - 1 = i"
        by linarith
      with 2 True b1 rh il show ?thesis
        by (simp add: nth_list_update)
    next
      case 3
      with eq have "?h - 1 \<noteq> i" "?h \<noteq> i"
        by linarith+
      with 3 True b1 i il show ?thesis
        by (simp add: nth_list_update r_low)
    qed
  qed
qed

section \<open>Facts about assignment and the empty vector\<close>

lemma copy_loop_in_range:
  "unat i \<le> unat n \<Longrightarrow> unat n \<le> length b \<Longrightarrow> unat n \<le> length src \<Longrightarrow>
   copy_loop i n b src
     = Inr (take (unat i) b @ take (unat n - unat i) (drop (unat i) src) @ drop (unat n) b)"
proof (induction i n b src rule: copy_loop.induct)
  case (1 i n b src)
  show ?case
  proof (cases "i < n")
    case False
    with "1.prems" have "unat i = unat n"
      by (simp add: word_less_nat_alt)
    with False show ?thesis
      by (simp add: copy_loop.simps [of i n b src])
  next
    case True
    let ?k = "unat i"
    let ?b = "b[?k := src ! ?k]"
    from True have suc: "unat (i + 1) = Suc ?k"
      by (rule unat_succ)
    from True "1.prems" have lt: "?k < unat n" "?k < length b" "?k < length src"
      by (simp_all add: word_less_nat_alt)
    from True lt have "copy_loop i n b src = copy_loop (i + 1) n ?b src"
      by (simp add: copy_loop.simps [of i n b src])
    also from True lt suc "1.prems" "1.IH"
    have "\<dots> = Inr (take (Suc ?k) ?b @ take (unat n - Suc ?k) (drop (Suc ?k) src) @ drop (unat n) ?b)"
      by simp
    also have "take (Suc ?k) ?b @ take (unat n - Suc ?k) (drop (Suc ?k) src) @ drop (unat n) ?b
             = take ?k b @ take (unat n - ?k) (drop ?k src) @ drop (unat n) b"
    proof -
      from lt have "take (Suc ?k) ?b = take ?k b @ [src ! ?k]"
        by (simp add: take_Suc_conv_app_nth)
      moreover from lt have "drop (unat n) ?b = drop (unat n) b"
        by simp
      moreover from lt have "drop ?k src = src ! ?k # drop (Suc ?k) src"
        by (simp add: Cons_nth_drop_Suc)
      moreover from lt have "unat n - ?k = Suc (unat n - Suc ?k)"
        by simp
      ultimately show ?thesis
        by simp
    qed
    finally show ?thesis .
  qed
qed

lemma copy_assign_same_capacity:
  assumes "well_formed this" "well_formed v" "capacity this = capacity v"
  shows "copy_assign this v = Returns () (this\<lparr>current_size := current_size v, buf := buf v\<rparr>)"
proof -
  from assms have len: "length (buf this) = unat (capacity v)" "length (buf v) = unat (capacity v)"
    by (simp_all add: well_formed_def)
  then have n: "(of_nat (length (buf this)) :: size_t) = capacity v"
    by simp
  from len have "copy_loop 0 (capacity v) (buf this) (buf v)
      = Inr (take (unat (0::size_t)) (buf this)
             @ take (unat (capacity v) - unat (0::size_t)) (drop (unat (0::size_t)) (buf v))
             @ drop (unat (capacity v)) (buf this))"
    by (intro copy_loop_in_range) simp_all
  with len n show ?thesis
    by (simp add: copy_assign_def)
qed

lemma reverse_empty_out_of_bounds:
  assumes "well_formed v" "current_size v = 0"
  shows "reverse v = OutOfBounds 18446744073709551615"
proof -
  have m: "unat (- 1 :: size_t) = 18446744073709551615"
    by (simp add: unsigned_minus_1_eq_mask mask_eq_exp_minus_1)
  from assms have "0 < length (buf v)"
    by (simp add: well_formed_def unat_gt_0 word_gt_0)
  moreover from assms have "length (buf v) \<le> 18446744073709551615"
    using unsigned_less [of "capacity v", where 'a = nat] by (simp add: well_formed_def)
  ultimately show ?thesis
    using assms(2) m by (simp add: reverse_def reverse_loop.simps [of 0 0])
qed

lemma pop_front_noexcept_empty_general:
  assumes "well_formed v" "current_size v = 0"
  shows "pop_front NoExcept v = Returns (buf v ! 0) (v\<lparr>current_size := - 1\<rparr>)"
    and "pop_back NoExcept moved_from v = Returns (buf v ! 0) v"
    and "capacity v \<noteq> - 1 \<Longrightarrow> \<not> size_invariant (v\<lparr>current_size := - 1\<rparr>)"
proof -
  from assms have len: "0 < length (buf v)"
    by (simp add: well_formed_def unat_gt_0 word_gt_0)
  with assms(2) show "pop_front NoExcept v = Returns (buf v ! 0) (v\<lparr>current_size := - 1\<rparr>)"
    by (simp add: pop_front_def unsafe_left_shift_by_one_def left_shift_loop.simps [of 1 0])
  from len assms(2) show "pop_back NoExcept moved_from v = Returns (buf v ! 0) v"
    by (simp add: pop_back_def)
  show "\<not> size_invariant (v\<lparr>current_size := - 1\<rparr>)" if "capacity v \<noteq> - 1"
    using that by (simp add: size_invariant_def word_order.extremum_unique)
qed

section \<open>Where the size invariant is kept\<close>

lemma keeps_invariant_push_back:
  assumes "well_formed v" "size_invariant v"
  shows "keeps_invariant (push_back m v x)"
proof (cases "current_size v = capacity v")
  case True
  with assms show ?thesis
    by (cases m) (simp_all add: push_back_def keeps_invariant_def)
next
  case False
  with assms have lt: "current_size v < capacity v"
    by (simp add: size_invariant_def)
  then have "current_size v + 1 \<le> capacity v"
    by (rule inc_le)
  with assms False show ?thesis
    by (simp add: push_back_def keeps_invariant_def well_formed_def size_invariant_def)
qed

lemma keeps_invariant_push_front:
  assumes "well_formed v" "size_invariant v"
  shows "keeps_invariant (push_front m v x)"
proof -
  from assms(2) have "unat (current_size v) \<le> unat (capacity v)"
    by (simp add: size_invariant_def word_le_nat_alt)
  moreover have "current_size v = capacity v \<longleftrightarrow> unat (current_size v) = unat (capacity v)"
    by (rule word_unat_eq_iff)
  ultimately consider "current_size v = capacity v"
    | "Suc (unat (current_size v)) = unat (capacity v)"
    | "Suc (unat (current_size v)) < unat (capacity v)"
    by linarith
  then show ?thesis
  proof cases
    case 1
    with assms show ?thesis
      by (cases m) (simp_all add: push_front_def keeps_invariant_def)
  next
    case 2
    with assms show ?thesis
      by (simp add: push_front_last_slot keeps_invariant_def)
  next
    case 3
    from assms(1) 3 obtain v1 where v1: "push_front m v x = Returns () v1"
      by (simp add: push_front_in_range)
    from push_front_logical(3,4) [OF assms(1) 3 v1] v1 show ?thesis
      by (simp add: keeps_invariant_def)
  qed
qed

lemma size_invariant_pred:
  "size_invariant v \<Longrightarrow> current_size v \<noteq> 0 \<Longrightarrow> size_invariant (v\<lparr>current_size := current_size v - 1\<rparr>)"
  by (simp add: size_invariant_def word_le_nat_alt unat_minus_one)

lemma keeps_invariant_pop_back:
  assumes "well_formed v" "size_invariant v"
  shows "keeps_invariant (pop_back m moved_from v)"
proof (cases "current_size v = 0")
  case True
  with assms show ?thesis
    by (cases m) (simp_all add: pop_back_def keeps_invariant_def)
next
  case False
  with assms size_invariant_pred [of v] show ?thesis
    by (simp add: pop_back_in_range keeps_invariant_def well_formed_def size_invariant_def)
qed

lemma keeps_invariant_pop_front:
  assumes "well_formed v" "size_invariant v" and "m = Checked \<or> current_size v \<noteq> 0"
  shows "keeps_invariant (pop_front m v)"
proof (cases "current_size v = 0")
  case True
  with assms show ?thesis
    by (simp add: pop_front_def keeps_invariant_def)
next
  case False
  from assms(1,2) have "unat (current_size v) \<le> unat (capacity v)"
    by (simp add: size_invariant_def word_le_nat_alt)
  with assms(1) False have "length (take (unat (current_size v) - 1) (drop 1 (buf v))
       @ drop (unat (current_size v) - 1) (buf v)) = unat (capacity v)"
    by (simp add: well_formed_def unat_gt_0 [symmetric])
  with assms(1,2) False size_invariant_pred [of v] show ?thesis
    by (simp add: pop_front_in_range keeps_invariant_def well_formed_def size_invariant_def)
qed

lemma keeps_invariant_reverse:
  assumes "well_formed v" "size_invariant v"
  shows "keeps_invariant (reverse v)"
proof (cases "current_size v = 0")
  case True
  with assms show ?thesis
    by (simp add: reverse_empty_out_of_bounds keeps_invariant_def)
next
  case False
  with assms obtain v1 where v1: "reverse v = Returns () v1"
    by (simp add: reverse_in_range)
  from reverse_nth(1-3) [OF assms False v1] assms v1 show ?thesis
    by (simp add: keeps_invariant_def well_formed_def size_invariant_def)
qed

lemma keeps_invariant_others:
  assumes "well_formed v" "size_invariant v"
  shows "keeps_invariant (clear v)"
    and "keeps_invariant (subscript m v pos)"
    and "well_formed w \<Longrightarrow> size_invariant w \<Longrightarrow> capacity w = capacity v \<Longrightarrow>
         keeps_invariant (copy_assign v w) \<and> keeps_invariant (move_assign v w)"
proof -
  from assms show "keeps_invariant (clear v)"
    by (simp add: clear_def keeps_invariant_def well_formed_def size_invariant_def)
  from assms show "keeps_invariant (subscript m v pos)"
    by (cases m) (simp_all add: subscript_def slot_ref_def keeps_invariant_def)
  show "keeps_invariant (copy_assign v w) \<and> keeps_invariant (move_assign v w)"
    if "well_formed w" "size_invariant w" "capacity w = capacity v"
    using assms that
    by (simp add: copy_assign_same_capacity move_assign_def keeps_invariant_def
        well_formed_def size_invariant_def)
qed

section \<open>Two runs on concrete vectors\<close>

text \<open>
  The scenario of the specification for capacity \<open>4\<close>, call by call, and two vectors with the
  logical sequence \<open>[1, 2]\<close> built on two paths: from an initializer list, and from a full
  array followed by \<open>pop_back\<close>. The elements are of type \<open>int\<close>, whose move is a copy.
\<close>

lemma scenario_capacity_four:
  "fixed_vector_default 4 (0::int) = \<lparr>capacity = 4, current_size = 0, buf = [0, 0, 0, 0]\<rparr>"
  "push_back Checked \<lparr>capacity = 4, current_size = 0, buf = [0::int, 0, 0, 0]\<rparr> 1
     = Returns () \<lparr>capacity = 4, current_size = 1, buf = [1, 0, 0, 0]\<rparr>"
  "push_back Checked \<lparr>capacity = 4, current_size = 1, buf = [1::int, 0, 0, 0]\<rparr> 2
     = Returns () \<lparr>capacity = 4, current_size = 2, buf = [1, 2, 0, 0]\<rparr>"
  "push_front Checked \<lparr>capacity = 4, current_size = 2, buf = [1::int, 2, 0, 0]\<rparr> 0
     = Returns () \<lparr>capacity = 4, current_size = 3, buf = [0, 1, 2, 0]\<rparr>"
  "pop_back Checked id \<lparr>capacity = 4, current_size = 3, buf = [0::int, 1, 2, 0]\<rparr>
     = Returns 2 \<lparr>capacity = 4, current_size = 2, buf = [0, 1, 2, 0]\<rparr>"
  "push_back Checked \<lparr>capacity = 4, current_size = 2, buf = [0::int, 1, 2, 0]\<rparr> 2
     = Returns () \<lparr>capacity = 4, current_size = 3, buf = [0, 1, 2, 0]\<rparr>"
  "push_back Checked \<lparr>capacity = 4, current_size = 3, buf = [0::int, 1, 2, 0]\<rparr> 2
     = Returns () \<lparr>capacity = 4, current_size = 4, buf = [0, 1, 2, 2]\<rparr>"
  "push_back Checked \<lparr>capacity = 4, current_size = 4, buf = [0::int, 1, 2, 2]\<rparr> 3
     = Throws length_error \<lparr>capacity = 4, current_size = 4, buf = [0, 1, 2, 2]\<rparr>"
proof -
  have "replicate (unat (4::size_t)) (0::int) = replicate 4 0"
    by simp
  also have "\<dots> = [0, 0, 0, 0]"
    by (simp add: numeral_Bit0 replicate_add)
  finally show "fixed_vector_default 4 (0::int)
      = \<lparr>capacity = 4, current_size = 0, buf = [0, 0, 0, 0]\<rparr>"
    by (simp add: fixed_vector_default_def)
qed (simp_all add: push_back_def push_front_def pop_back_def unsafe_right_shift_by_one_def
       right_shift_loop.simps)

lemma construction_paths:
  "fixed_vector_init 3 (0::int) [1, 2] = Inr \<lparr>capacity = 3, current_size = 2, buf = [1, 2, 0]\<rparr>"
  "pop_back Checked id (fixed_vector_array 3 [1::int, 2, 9])
     = Returns 9 \<lparr>capacity = 3, current_size = 2, buf = [1, 2, 9]\<rparr>"
  by (simp_all add: fixed_vector_init_def fixed_vector_array_def pop_back_def)

section \<open>The claims\<close>

subsection \<open>Reversal\<close>

text \<open>
  Claim C1: for a vector of logical size \<open>n \<ge> 1\<close>, one call of \<open>reverse()\<close> leaves at every
  logical position \<open>i\<close> the element that was at position \<open>n - 1 - i\<close>, and the size is the
  same. The loop of \<open>reverse\<close> runs while \<open>i <= size / 2\<close>, so for an even size it swaps the
  two middle slots twice. With the two elements \<open>[1, 2]\<close> the call returns \<open>[1, 2]\<close> where the
  claim asks for \<open>[2, 1]\<close>; with \<open>[1, 2, 3, 4]\<close> it returns \<open>[4, 2, 3, 1]\<close>. Lemma
  \<open>reverse_nth\<close> gives every slot after the call, for every size \<open>n \<ge> 1\<close>: an odd size is
  reversed, an even size is reversed except for the two middle slots.
\<close>

theorem reverse_even_size:
  "reverse \<lparr>capacity = 2, current_size = 2, buf = [1::int, 2]\<rparr>
     = Returns () \<lparr>capacity = 2, current_size = 2, buf = [1, 2]\<rparr>
   \<and> reverse \<lparr>capacity = 4, current_size = 4, buf = [1::int, 2, 3, 4]\<rparr>
     = Returns () \<lparr>capacity = 4, current_size = 4, buf = [4, 2, 3, 1]\<rparr>"
  by (simp add: reverse_def reverse_loop.simps word_le_nat_alt)

text \<open>
  Claim C4: on an empty vector \<open>reverse()\<close> performs no swap, leaves the container as it is
  and touches no slot outside \<open>[0, capacity)\<close>. With size \<open>0\<close> the test \<open>0 <= 0 / 2\<close> holds,
  the body runs once, and it reads \<open>_buf[0 - 1 - 0]\<close>, which is slot \<open>2^64 - 1\<close>
  (\<open>reverse_empty_out_of_bounds\<close> for every empty vector).
\<close>

theorem reverse_empty:
  "reverse \<lparr>capacity = 4, current_size = 0, buf = [0::int, 0, 0, 0]\<rparr>
     = OutOfBounds 18446744073709551615"
  by (simp add: reverse_def reverse_loop.simps unsigned_minus_1_eq_mask mask_eq_exp_minus_1)

subsection \<open>Insertion at the front\<close>

text \<open>
  Claim C2: with size below capacity, \<open>push_front\<close> reads and writes slots of
  \<open>[0, capacity)\<close> only, its shift writing slot \<open>i\<close> from slot \<open>i - 1\<close> for \<open>i\<close> from the old
  size down to \<open>1\<close>. The shift increments the size first and starts at the new size: with
  capacity \<open>2\<close> and size \<open>1\<close> it writes slot \<open>2\<close>, in either build mode; with capacity \<open>3\<close>
  and size \<open>1\<close> it stays in range and overwrites slot \<open>2\<close>, the slot above the old size
  (\<open>push_front_last_slot\<close> and \<open>push_front_in_range\<close> for every vector).
\<close>

theorem push_front_shift_range:
  "push_front Checked \<lparr>capacity = 2, current_size = 1, buf = [1::int, 2]\<rparr> 7 = OutOfBounds 2
   \<and> push_front NoExcept \<lparr>capacity = 2, current_size = 1, buf = [1::int, 2]\<rparr> 7 = OutOfBounds 2
   \<and> push_front Checked \<lparr>capacity = 3, current_size = 1, buf = [1::int, 2, 3]\<rparr> 7
     = Returns () \<lparr>capacity = 3, current_size = 2, buf = [7, 1, 2]\<rparr>"
  by (simp add: push_front_def unsafe_right_shift_by_one_def right_shift_loop.simps)

text \<open>
  Claim C6: in checked mode, starting from the empty vector of capacity \<open>C\<close>, \<open>C\<close> pushes
  succeed and the next push, at the back or at the front, throws \<open>std::length_error\<close> and
  leaves the vector as it is. A push at the front that fills the last free slot writes slot
  \<open>C\<close>: the first push into a vector of capacity \<open>1\<close>, or the second one, after a push at
  the back, into a vector of capacity \<open>2\<close>. Pushes at the back do fill the vector, and both
  pushes throw at capacity (\<open>fill_by_push_back\<close>, \<open>push_at_capacity\<close>).
\<close>

theorem push_front_fills_last_slot:
  "push_front Checked \<lparr>capacity = 1, current_size = 0, buf = [0::int]\<rparr> 5 = OutOfBounds 1
   \<and> push_back Checked \<lparr>capacity = 2, current_size = 0, buf = [0::int, 0]\<rparr> 1
       = Returns () \<lparr>capacity = 2, current_size = 1, buf = [1, 0]\<rparr>
   \<and> push_front Checked \<lparr>capacity = 2, current_size = 1, buf = [1::int, 0]\<rparr> 2 = OutOfBounds 2"
  by (simp add: push_front_def push_back_def unsafe_right_shift_by_one_def
      right_shift_loop.simps)

text \<open>
  Claim C8: with size below capacity, \<open>push_front(x)\<close> followed by \<open>pop_front()\<close> returns
  \<open>x\<close> and restores the size and the logical sequence. With capacity \<open>3\<close> and size \<open>2\<close> the
  call of \<open>push_front\<close> writes slot \<open>3\<close>, in either build mode. With two free slots or more
  the pair does what the claim says (\<open>push_front_pop_front_round_trip\<close>).
\<close>

theorem push_front_pop_front_last_slot:
  "push_front Checked \<lparr>capacity = 3, current_size = 2, buf = [4::int, 5, 6]\<rparr> 9 = OutOfBounds 3
   \<and> push_front NoExcept \<lparr>capacity = 3, current_size = 2, buf = [4::int, 5, 6]\<rparr> 9 = OutOfBounds 3"
  by (simp add: push_front_def unsafe_right_shift_by_one_def right_shift_loop.simps)

subsection \<open>Removal from the empty vector\<close>

text \<open>
  Claim C3: with \<open>FIXED_VECTOR_NOEXCEPT\<close> defined, \<open>pop_front()\<close> on the empty vector does
  what \<open>pop_back()\<close> does there: it returns the value of slot \<open>0\<close> and leaves the size as it
  is. \<open>pop_back\<close> does so; \<open>pop_front\<close> has no test for the empty vector in that mode, and
  \<open>unsafe_left_shift_by_one\<close> decrements the size \<open>0\<close> to \<open>2^64 - 1\<close>.
\<close>

theorem pop_front_noexcept_empty:
  "pop_front NoExcept \<lparr>capacity = 2, current_size = 0, buf = [7::int, 9]\<rparr>
     = Returns 7 \<lparr>capacity = 2, current_size = 18446744073709551615, buf = [7, 9]\<rparr>
   \<and> pop_back NoExcept id \<lparr>capacity = 2, current_size = 0, buf = [7::int, 9]\<rparr>
     = Returns 7 \<lparr>capacity = 2, current_size = 0, buf = [7, 9]\<rparr>"
  by (simp add: pop_front_def pop_back_def unsafe_left_shift_by_one_def left_shift_loop.simps)

text \<open>
  Claim C5: every public operation, in either build mode, takes a vector with
  \<open>size <= capacity\<close> to a vector with \<open>size <= capacity\<close>. With \<open>FIXED_VECTOR_NOEXCEPT\<close>
  defined, \<open>pop_front()\<close> on the empty vector of capacity \<open>1\<close> returns with the size
  \<open>2^64 - 1\<close>. The lemmas \<open>keeps_invariant_\<dots>\<close> cover the other operations and
  \<open>pop_front\<close> in checked mode or on a vector that is not empty.
\<close>

theorem pop_front_noexcept_invariant:
  "well_formed \<lparr>capacity = 1, current_size = 0, buf = [3::int]\<rparr>
   \<and> size_invariant \<lparr>capacity = 1, current_size = 0, buf = [3::int]\<rparr>
   \<and> pop_front NoExcept \<lparr>capacity = 1, current_size = 0, buf = [3::int]\<rparr>
       = Returns 3 \<lparr>capacity = 1, current_size = 18446744073709551615, buf = [3]\<rparr>
   \<and> \<not> size_invariant \<lparr>capacity = 1, current_size = 18446744073709551615, buf = [3::int]\<rparr>"
  by (simp add: pop_front_def unsafe_left_shift_by_one_def left_shift_loop.simps
      well_formed_def size_invariant_def word_le_nat_alt
      unsigned_minus_1_eq_mask mask_eq_exp_minus_1)

text \<open>
  Claim C7: in checked mode, \<open>pop_back()\<close> and \<open>pop_front()\<close> on a vector of size \<open>0\<close> throw
  \<open>std::length_error\<close> and leave the size and every slot as they are.
\<close>

theorem pop_empty_checked:
  "current_size v = 0 \<Longrightarrow>
     pop_back Checked moved_from v = Throws length_error v
     \<and> pop_front Checked v = Throws length_error v"
  by (simp add: pop_back_def pop_front_def)

theorem pop_empty_checked_witness:
  "current_size (fixed_vector_default 3 (0::int)) = 0
   \<and> pop_back Checked id (fixed_vector_default 3 (0::int))
       = Throws length_error \<lparr>capacity = 3, current_size = 0, buf = [0, 0, 0]\<rparr>
   \<and> pop_front Checked (fixed_vector_default 3 (0::int))
       = Throws length_error \<lparr>capacity = 3, current_size = 0, buf = [0, 0, 0]\<rparr>"
proof -
  have e: "current_size (fixed_vector_default 3 (0::int)) = 0"
    by (simp add: fixed_vector_default_def)
  have "replicate (unat (3::size_t)) (0::int) = replicate 3 0"
    by simp
  also have "\<dots> = [0, 0, 0]"
    by (simp add: numeral_3_eq_3)
  finally have "fixed_vector_default 3 (0::int)
      = \<lparr>capacity = 3, current_size = 0, buf = [0, 0, 0]\<rparr>"
    by (simp add: fixed_vector_default_def)
  with e pop_empty_checked [OF e, of id] show ?thesis by simp
qed

subsection \<open>Comparison\<close>

text \<open>
  Claim C9: \<open>operator==\<close> is true exactly when the two sizes are equal and the elements at
  the logical positions \<open>0\<close> to \<open>size - 1\<close> are pairwise equal; it is reflexive and
  symmetric, and a slot at an index \<open>>= size\<close> of either vector has no influence on it.

  The elements are compared with the \<open>operator==\<close> of \<open>T\<close>, so reflexivity and symmetry
  are those of the element type. A vector of \<open>double\<close> holding a not-a-number is not equal
  to itself, and with an \<open>operator==\<close> that is not symmetric \<open>a == b\<close> and \<open>b == a\<close> differ.
\<close>

theorem operator_eq_counterexample:
  "well_formed \<lparr>capacity = 2, current_size = 2, buf = [NaN, Finite 1]\<rparr>
   \<and> size_invariant \<lparr>capacity = 2, current_size = 2, buf = [NaN, Finite 1]\<rparr>
   \<and> operator_eq double_eq \<lparr>capacity = 2, current_size = 2, buf = [NaN, Finite 1]\<rparr>
                             \<lparr>capacity = 2, current_size = 2, buf = [NaN, Finite 1]\<rparr> = Some False
   \<and> operator_eq pattern_eq \<lparr>capacity = 1, current_size = 1, buf = [Wildcard]\<rparr>
                              \<lparr>capacity = 1, current_size = 1, buf = [Literal 1]\<rparr> = Some True
   \<and> operator_eq pattern_eq \<lparr>capacity = 1, current_size = 1, buf = [Literal 1]\<rparr>
                              \<lparr>capacity = 1, current_size = 1, buf = [Wildcard]\<rparr> = Some False"
proof -
  have "std_equal double_eq [NaN, Finite 1] 0 2 [NaN, Finite 1] 0 = Some False"
    by (simp add: numeral_2_eq_2)
  moreover have "std_equal pattern_eq [Wildcard] 0 1 [Literal 1] 0 = Some True"
    "std_equal pattern_eq [Literal 1] 0 1 [Wildcard] 0 = Some False"
    by simp_all
  ultimately show ?thesis
    by (simp add: operator_eq_def size_fv_def well_formed_def size_invariant_def word_le_nat_alt)
qed

text \<open>
  Claim C9, amended: for vectors of \<open>CAPACITY\<close> slots with \<open>size <= capacity\<close>,
  \<open>operator==\<close> is true exactly when the two sizes are equal and the \<open>operator==\<close> of \<open>T\<close>
  holds pairwise, in order, on the elements at the logical positions \<open>0\<close> to \<open>size - 1\<close>;
  a slot at an index \<open>>= size\<close> of either vector has no influence on it; a vector is equal
  to itself when each of its logical elements is equal to itself, and \<open>a == b\<close> is \<open>b == a\<close>
  when the \<open>operator==\<close> of \<open>T\<close> is symmetric.
\<close>

theorem operator_eq_logical_sequence:
  assumes "well_formed a" "size_invariant a" "well_formed b" "size_invariant b"
  shows "operator_eq elem_eq a b = Some (current_size a = current_size b \<and>
            (\<forall>i < unat (current_size a). elem_eq (buf a ! i) (buf b ! i)))
       \<and> ((\<forall>x \<in> set (logical a). elem_eq x x) \<longrightarrow> operator_eq elem_eq a a = Some True)
       \<and> ((\<forall>x y. elem_eq x y \<longrightarrow> elem_eq y x) \<longrightarrow>
             operator_eq elem_eq b a = operator_eq elem_eq a b)
       \<and> (\<forall>k x. unat (current_size a) \<le> k \<longrightarrow>
             operator_eq elem_eq (a\<lparr>buf := (buf a)[k := x]\<rparr>) b = operator_eq elem_eq a b)
       \<and> (\<forall>k x. unat (current_size b) \<le> k \<longrightarrow>
             operator_eq elem_eq a (b\<lparr>buf := (buf b)[k := x]\<rparr>) = operator_eq elem_eq a b)"
proof -
  have main: "operator_eq elem_eq a b = Some (current_size a = current_size b \<and>
            (\<forall>i < unat (current_size a). elem_eq (buf a ! i) (buf b ! i)))"
    using assms operator_eq_all2 [of a b elem_eq] logical_all2_iff [of a b elem_eq] by auto
  have refl: "operator_eq elem_eq a a = Some True" if "\<forall>x \<in> set (logical a). elem_eq x x"
    using assms that operator_eq_all2 [of a a elem_eq]
    by (simp add: list_all2_same_reflexive)
  have sym: "operator_eq elem_eq b a = operator_eq elem_eq a b"
    if "\<forall>x y. elem_eq x y \<longrightarrow> elem_eq y x"
    using assms operator_eq_all2 [of a b elem_eq] operator_eq_all2 [of b a elem_eq]
      list_all2_symmetric [OF that, of "logical a" "logical b"]
    by auto
  have left: "operator_eq elem_eq (a\<lparr>buf := (buf a)[k := x]\<rparr>) b = operator_eq elem_eq a b"
    if "unat (current_size a) \<le> k" for k x
    using assms that operator_eq_all2 [of a b elem_eq]
      operator_eq_all2 [of "a\<lparr>buf := (buf a)[k := x]\<rparr>" b elem_eq]
    by (simp add: update_slot_keeps_shape logical_update_unused)
  have right: "operator_eq elem_eq a (b\<lparr>buf := (buf b)[k := x]\<rparr>) = operator_eq elem_eq a b"
    if "unat (current_size b) \<le> k" for k x
    using assms that operator_eq_all2 [of a b elem_eq]
      operator_eq_all2 [of a "b\<lparr>buf := (buf b)[k := x]\<rparr>" elem_eq]
    by (simp add: update_slot_keeps_shape logical_update_unused)
  from main refl sym left right show ?thesis by blast
qed

theorem operator_eq_logical_sequence_witness:
  "well_formed \<lparr>capacity = 3, current_size = 2, buf = [1::int, 2, 0]\<rparr>
   \<and> size_invariant \<lparr>capacity = 3, current_size = 2, buf = [1::int, 2, 0]\<rparr>
   \<and> well_formed \<lparr>capacity = 3, current_size = 2, buf = [1::int, 2, 9]\<rparr>
   \<and> size_invariant \<lparr>capacity = 3, current_size = 2, buf = [1::int, 2, 9]\<rparr>
   \<and> operator_eq (=) \<lparr>capacity = 3, current_size = 2, buf = [1::int, 2, 0]\<rparr>
                       \<lparr>capacity = 3, current_size = 2, buf = [1::int, 2, 9]\<rparr> = Some True
   \<and> operator_eq (=) \<lparr>capacity = 3, current_size = 2, buf = [1::int, 2, 0]\<rparr>
                       \<lparr>capacity = 3, current_size = 2, buf = [1::int, 2, 0]\<rparr> = Some True
   \<and> operator_eq (=) \<lparr>capacity = 3, current_size = 2, buf = [1::int, 2, 9]\<rparr>
                       \<lparr>capacity = 3, current_size = 2, buf = [1::int, 2, 0]\<rparr> = Some True
   \<and> operator_eq (=) \<lparr>capacity = 3, current_size = 2, buf = [1::int, 2, 5]\<rparr>
                       \<lparr>capacity = 3, current_size = 2, buf = [1::int, 2, 9]\<rparr> = Some True
   \<and> operator_eq (=) \<lparr>capacity = 3, current_size = 2, buf = [1::int, 2, 0]\<rparr>
                       \<lparr>capacity = 3, current_size = 2, buf = [1::int, 2, 7]\<rparr> = Some True"
proof -
  let ?a = "\<lparr>capacity = 3, current_size = 2, buf = [1::int, 2, 0]\<rparr>"
  let ?b = "\<lparr>capacity = 3, current_size = 2, buf = [1::int, 2, 9]\<rparr>"
  have a: "well_formed ?a" "size_invariant ?a"
    by (simp_all add: well_formed_def size_invariant_def word_le_nat_alt)
  have b: "well_formed ?b" "size_invariant ?b"
    by (simp_all add: well_formed_def size_invariant_def word_le_nat_alt)
  note inst = operator_eq_logical_sequence [OF a b, of "(=)"]
  have "\<forall>i<2. [1::int, 2, 0] ! i = [1::int, 2, 9] ! i"
    by (auto simp: numeral_2_eq_2 less_Suc_eq)
  moreover have "unat (2::size_t) = 2"
    by simp
  ultimately have "\<forall>i<unat (2::size_t). [1::int, 2, 0] ! i = [1::int, 2, 9] ! i"
    by simp
  with inst have ab: "operator_eq (=) ?a ?b = Some True"
    by simp
  have "\<forall>x \<in> set (logical ?a). x = x"
    by simp
  with inst have aa: "operator_eq (=) ?a ?a = Some True"
    by blast
  have "\<forall>x y :: int. x = y \<longrightarrow> y = x"
    by simp
  with inst have "operator_eq (=) ?b ?a = operator_eq (=) ?a ?b"
    by blast
  with ab have ba: "operator_eq (=) ?b ?a = Some True"
    by simp
  have "unat (current_size ?a) \<le> 2" "unat (current_size ?b) \<le> 2"
    by simp_all
  with inst have "operator_eq (=) (?a\<lparr>buf := (buf ?a)[2 := 5]\<rparr>) ?b = operator_eq (=) ?a ?b"
    "operator_eq (=) ?a (?b\<lparr>buf := (buf ?b)[2 := 7]\<rparr>) = operator_eq (=) ?a ?b"
    by blast+
  with ab have left: "operator_eq (=) \<lparr>capacity = 3, current_size = 2, buf = [1::int, 2, 5]\<rparr> ?b
      = Some True"
    and right: "operator_eq (=) ?a \<lparr>capacity = 3, current_size = 2, buf = [1::int, 2, 7]\<rparr>
      = Some True"
    by simp_all
  from a b ab aa ba left right show ?thesis by simp
qed

subsection \<open>Indexed access\<close>

text \<open>
  Claim C10: in checked mode \<open>operator[](pos)\<close> throws \<open>std::out_of_range\<close> exactly when
  the size is \<open>0\<close> or \<open>pos >= size\<close>; with \<open>size <= capacity\<close> and \<open>pos < size\<close> it returns
  a reference to the element at logical position \<open>pos\<close>; and with \<open>size > capacity\<close> (and
  \<open>pos < size\<close>) it throws \<open>std::runtime_error\<close>.
\<close>

theorem subscript_checked:
  "((current_size v = 0 \<or> current_size v \<le> pos) \<longrightarrow>
       subscript Checked v pos = Throws out_of_range v)
   \<and> (\<not> (current_size v = 0 \<or> current_size v \<le> pos) \<longrightarrow>
       (\<forall>s. subscript Checked v pos \<noteq> Throws out_of_range s))
   \<and> (well_formed v \<and> current_size v \<le> capacity v \<and> pos < current_size v \<longrightarrow>
       subscript Checked v pos = Returns pos v
       \<and> unat pos < length (logical v) \<and> logical v ! unat pos = buf v ! unat pos)
   \<and> (capacity v < current_size v \<and> pos < current_size v \<longrightarrow>
       subscript Checked v pos = Throws runtime_error v)"
proof (cases "current_size v = 0")
  case True
  then show ?thesis
    by (simp add: subscript_def)
next
  case False
  note above = above_last_iff [OF False, of pos]
  have first: "current_size v \<le> pos \<Longrightarrow> subscript Checked v pos = Throws out_of_range v"
    using False above by (simp add: subscript_def)
  have second: "subscript Checked v pos \<noteq> Throws out_of_range s" if "\<not> current_size v \<le> pos" for s
    using False above that by (simp add: subscript_def slot_ref_def)
  have third: "subscript Checked v pos = Returns pos v
       \<and> unat pos < length (logical v) \<and> logical v ! unat pos = buf v ! unat pos"
    if "well_formed v" "current_size v \<le> capacity v" "pos < current_size v"
  proof -
    from that have "unat pos < unat (current_size v)" "unat (current_size v) \<le> length (buf v)"
      by (simp_all add: word_less_nat_alt word_le_nat_alt well_formed_def)
    moreover from that have "\<not> capacity v < current_size v" "\<not> current_size v \<le> pos"
      by (simp_all add: linorder_not_less linorder_not_le)
    ultimately show ?thesis
      using False above by (simp add: subscript_def slot_ref_def logical_def)
  qed
  have fourth: "subscript Checked v pos = Throws runtime_error v"
    if "capacity v < current_size v" "pos < current_size v"
    using False above that by (simp add: subscript_def)
  from False first second third fourth show ?thesis
    by (simp add: linorder_not_le)
qed

theorem subscript_checked_witness:
  "subscript Checked \<lparr>capacity = 3, current_size = 2, buf = [4::int, 5, 6]\<rparr> 2
     = Throws out_of_range \<lparr>capacity = 3, current_size = 2, buf = [4, 5, 6]\<rparr>
   \<and> subscript Checked \<lparr>capacity = 3, current_size = 0, buf = [4::int, 5, 6]\<rparr> 0
     = Throws out_of_range \<lparr>capacity = 3, current_size = 0, buf = [4, 5, 6]\<rparr>
   \<and> subscript Checked \<lparr>capacity = 3, current_size = 2, buf = [4::int, 5, 6]\<rparr> 1
     = Returns 1 \<lparr>capacity = 3, current_size = 2, buf = [4, 5, 6]\<rparr>
   \<and> subscript Checked \<lparr>capacity = 3, current_size = 5, buf = [4::int, 5, 6]\<rparr> 1
     = Throws runtime_error \<lparr>capacity = 3, current_size = 5, buf = [4, 5, 6]\<rparr>"
proof -
  let ?v = "\<lparr>capacity = 3, current_size = 2, buf = [4::int, 5, 6]\<rparr>"
  let ?e = "\<lparr>capacity = 3, current_size = 0, buf = [4::int, 5, 6]\<rparr>"
  let ?w = "\<lparr>capacity = 3, current_size = 5, buf = [4::int, 5, 6]\<rparr>"
  have "current_size ?v \<le> 2"
    by simp
  with subscript_checked [of ?v 2] have a: "subscript Checked ?v 2 = Throws out_of_range ?v"
    by blast
  have "current_size ?e = 0"
    by simp
  with subscript_checked [of ?e 0] have b: "subscript Checked ?e 0 = Throws out_of_range ?e"
    by blast
  have "well_formed ?v \<and> current_size ?v \<le> capacity ?v \<and> 1 < current_size ?v"
    by (simp add: well_formed_def word_le_nat_alt word_less_nat_alt)
  with subscript_checked [of ?v 1] have c: "subscript Checked ?v 1 = Returns 1 ?v"
    by blast
  have "capacity ?w < current_size ?w \<and> 1 < current_size ?w"
    by (simp add: word_less_nat_alt)
  with subscript_checked [of ?w 1] have d: "subscript Checked ?w 1 = Throws runtime_error ?w"
    by blast
  from a b c d show ?thesis by simp
qed

end
